theory Spec2Isabelle
  imports Complex_Main "HOL-Library.Log_Nat" "HOL-Library.Monad_Syntax"
begin

section \<open>Common types\<close>

text \<open>
  Exceptions that the Python code can raise are values of \<open>error\<close>; a function that can
  raise returns \<open>error + 'a\<close> with \<open>Inl\<close> for the exception.
\<close>

datatype error = ZeroDivisionError | KeyError | IndexError | ValueError

type_synonym pos = "int \<times> int"

section \<open>Python floats\<close>

text \<open>
  A Python float is a finite number, an infinity or NaN.  Finite values of the kinematic
  quantities are idealised as reals: their rounding is not modelled, and the functions
  below are used for properties in which rounding plays no part (comparisons, the
  sentinel \<open>float("inf")\<close>, the raised \<open>ZeroDivisionError\<close>).  The one place where rounding
  decides the control flow, the time accumulator of the rollout loop, is modelled in
  exact binary64 arithmetic further down.
\<close>

datatype fl = Fin real | PInf | NInf | NaN

fun fl_less :: "fl \<Rightarrow> fl \<Rightarrow> bool" where
  "fl_less NaN _ = False"
| "fl_less _ NaN = False"
| "fl_less (Fin a) (Fin b) = (a < b)"
| "fl_less (Fin a) PInf = True"
| "fl_less (Fin a) NInf = False"
| "fl_less PInf _ = False"
| "fl_less NInf NInf = False"
| "fl_less NInf _ = True"


fun fl_add :: "fl \<Rightarrow> fl \<Rightarrow> fl" where
  "fl_add NaN _ = NaN"
| "fl_add _ NaN = NaN"
| "fl_add (Fin a) (Fin b) = Fin (a + b)"
| "fl_add PInf NInf = NaN"
| "fl_add NInf PInf = NaN"
| "fl_add PInf _ = PInf"
| "fl_add _ PInf = PInf"
| "fl_add NInf _ = NInf"
| "fl_add _ NInf = NInf"

fun fl_neg :: "fl \<Rightarrow> fl" where
  "fl_neg (Fin a) = Fin (- a)"
| "fl_neg PInf = NInf"
| "fl_neg NInf = PInf"
| "fl_neg NaN = NaN"

text \<open>Multiplication of a finite gain with a cost: \<open>0 * inf\<close> is NaN.\<close>

fun fl_scale :: "real \<Rightarrow> fl \<Rightarrow> fl" where
  "fl_scale k (Fin a) = Fin (k * a)"
| "fl_scale k NaN = NaN"
| "fl_scale k PInf = (if k = 0 then NaN else if 0 < k then PInf else NInf)"
| "fl_scale k NInf = (if k = 0 then NaN else if 0 < k then NInf else PInf)"

text \<open>
  \<open>1.0 / d\<close> on Python floats: a zero divisor raises \<open>ZeroDivisionError\<close>
  (Python floats do not produce an infinity here), an infinite divisor gives \<open>0.0\<close>.
\<close>

fun py_recip :: "fl \<Rightarrow> error + fl" where
  "py_recip (Fin d) = (if d = 0 then Inl ZeroDivisionError else Inr (Fin (1 / d)))"
| "py_recip PInf = Inr (Fin 0)"
| "py_recip NInf = Inr (Fin 0)"
| "py_recip NaN = Inr NaN"

section \<open>Binary64 addition for the time accumulator\<close>

text \<open>
  A finite binary64 number is a rational.  \<open>b64_round\<close> rounds a rational to the nearest
  number with a 53-bit significand, ties to even (exponent range unbounded, which is
  exact for the magnitudes that occur here).  \<open>b64_add\<close> is the float addition of
  \<open>time += self.dt\<close>.
\<close>

definition pow2 :: "int \<Rightarrow> rat" where
  "pow2 e = (if 0 \<le> e then 2 ^ nat e else 1 / 2 ^ nat (- e))"

definition round_even :: "rat \<Rightarrow> int" where
  "round_even x =
     (let f = \<lfloor>x\<rfloor>; r = x - of_int f
      in if r < 1 / 2 then f else if 1 / 2 < r then f + 1 else if even f then f else f + 1)"

definition ilog2 :: "rat \<Rightarrow> int" where
  "ilog2 q =
     (let (p, d) = quotient_of q; e = bitlen p - bitlen d
      in if pow2 e \<le> q then e else e - 1)"

definition b64_round :: "rat \<Rightarrow> rat" where
  "b64_round q =
     (if q = 0 then 0
      else let a = \<bar>q\<bar>; u = pow2 (ilog2 a - 52)
           in sgn q * of_int (round_even (a / u)) * u)"

definition b64_add :: "rat \<Rightarrow> rat \<Rightarrow> rat" where
  "b64_add a b = b64_round (a + b)"

section \<open>The DWA planner\<close>

subsection \<open>Planner and state\<close>

text \<open>
  \<open>DWAPlanner.__init__\<close>: the instance attributes.  \<open>set(obstacles)\<close> is a list without
  duplicates.  \<open>dt\<close> and \<open>predict_time\<close> hold the exact binary64 value of the literal.
\<close>

record dwa =
  map_width :: int
  map_height :: int
  obstacles :: "pos list"
  max_speed :: real
  min_speed :: real
  max_yaw_rate :: real
  max_accel :: real
  max_dyaw_rate :: real
  v_resolution :: real
  yaw_rate_resolution :: real
  dt :: rat
  predict_time :: rat
  to_goal_cost_gain :: real
  speed_cost_gain :: real
  obstacle_cost_gain :: real

definition DWAPlanner_init :: "int \<Rightarrow> int \<Rightarrow> pos list \<Rightarrow> dwa" where
  "DWAPlanner_init w h obs =
     \<lparr> map_width = w, map_height = h, obstacles = remdups obs,
       max_speed = 1, min_speed = - (1 / 2),
       max_yaw_rate = 40 * pi / 180,
       max_accel = 2 / 10,
       max_dyaw_rate = 40 * pi / 180,
       v_resolution = 1 / 100,
       yaw_rate_resolution = (1 / 10) * pi / 180,
       dt = b64_round (1 / 10),
       predict_time = b64_round 3,
       to_goal_cost_gain = 15 / 100,
       speed_cost_gain = 1,
       obstacle_cost_gain = 1 \<rparr>"

text \<open>The state array \<open>[x, y, yaw, v, omega]\<close>.\<close>

record kstate =
  px :: real
  py :: real
  yaw :: real
  vel :: real
  omega :: real

type_synonym point = "real \<times> real"

subsection \<open>Obstacle cost\<close>

definition obs_dist :: "point \<Rightarrow> pos \<Rightarrow> real" where
  "obs_dist p obs = sqrt ((fst p - of_int (fst obs))\<^sup>2 + (snd p - of_int (snd obs))\<^sup>2)"

text \<open>The body of the inner loop: \<open>if dist < min_dist: min_dist = dist\<close>.\<close>

definition closer :: "point \<Rightarrow> fl \<Rightarrow> pos \<Rightarrow> fl" where
  "closer p min_dist obs =
     (if fl_less (Fin (obs_dist p obs)) min_dist then Fin (obs_dist p obs) else min_dist)"

definition min_dist_of :: "dwa \<Rightarrow> point list \<Rightarrow> fl" where
  "min_dist_of P trajectory =
     foldl (\<lambda>m p. foldl (closer p) m (obstacles P)) PInf trajectory"

definition calc_obstacle_cost :: "dwa \<Rightarrow> point list \<Rightarrow> error + fl" where
  "calc_obstacle_cost P trajectory =
     (let min_dist = min_dist_of P trajectory
      in if min_dist \<noteq> PInf then py_recip min_dist else Inr PInf)"

subsection \<open>Motion model and trajectory rollout\<close>

text \<open>\<open>motion\<close>: every right-hand side reads the state before the call.\<close>

definition motion :: "kstate \<Rightarrow> real \<times> real \<Rightarrow> real \<Rightarrow> kstate" where
  "motion x u d =
     x\<lparr> px := px x + fst u * cos (yaw x) * d,
        py := py x + fst u * sin (yaw x) * d,
        yaw := yaw x + snd u * d,
        vel := fst u,
        omega := snd u \<rparr>"

text \<open>
  The loop of \<open>calc_trajectory\<close>: \<open>while time <= self.predict_time\<close>, with the float
  addition \<open>time += self.dt\<close>.  Nothing bounds the loop for an arbitrary \<open>dt\<close> (with
  \<open>dt = 0\<close> it never ends), so it is a partial function: \<open>None\<close> is non-termination.
\<close>

partial_function (option) rollout ::
  "dwa \<Rightarrow> real \<Rightarrow> real \<Rightarrow> kstate \<Rightarrow> rat \<Rightarrow> point list \<Rightarrow> point list option" where
  "rollout P v yaw_rate x time trajectory =
     (if time \<le> predict_time P
      then let x' = motion x (v, yaw_rate) (of_rat (dt P))
           in rollout P v yaw_rate x' (b64_add time (dt P)) (trajectory @ [(px x', py x')])
      else Some trajectory)"

definition calc_trajectory :: "dwa \<Rightarrow> kstate \<Rightarrow> real \<Rightarrow> real \<Rightarrow> point list option" where
  "calc_trajectory P x v yaw_rate = rollout P v yaw_rate x 0 []"

text \<open>
  \<open>tick_run d pt t ts\<close>: starting from the accumulator value \<open>t\<close>, the loop test passes
  exactly \<open>length ts\<close> times, and \<open>ts\<close> are the successive values of the accumulator.
\<close>

fun tick_run :: "rat \<Rightarrow> rat \<Rightarrow> rat \<Rightarrow> rat list \<Rightarrow> bool" where
  "tick_run d pt t [] = (\<not> t \<le> pt)"
| "tick_run d pt t (t' # ts) = (t \<le> pt \<and> b64_add t d = t' \<and> tick_run d pt t' ts)"

subsection \<open>Dynamic window and candidates\<close>




subsection \<open>Cost of a candidate and selection\<close>








subsection \<open>The control loop\<close>









text \<open>Candidates in ascending \<open>(v, yaw_rate)\<close> order: \<open>v\<close> first, then \<open>yaw_rate\<close>.\<close>

definition lex_less :: "real \<times> real \<Rightarrow> real \<times> real \<Rightarrow> bool" where
  "lex_less a b = (fst a < fst b \<or> (fst a = fst b \<and> snd a < snd b))"


section \<open>The grid planner (A*)\<close>

subsection \<open>Occupancy grid\<close>

text \<open>
  \<open>AStar.__init__\<close>: \<open>np.zeros((height, width))\<close> raises \<open>ValueError\<close> on a negative
  dimension; \<open>self.grid[y][x] = 1\<close> indexes like NumPy: a negative index counts from the
  end, an index outside \<open>[-n, n)\<close> raises \<open>IndexError\<close>.
\<close>

record astar =
  width :: int
  height :: int
  obstacle_list :: "pos list"
  grid :: "nat list list"




definition is_valid_position :: "astar \<Rightarrow> int \<Rightarrow> int \<Rightarrow> bool" where
  "is_valid_position A x y =
     (0 \<le> x \<and> x < width A \<and> 0 \<le> y \<and> y < height A \<and> grid A ! nat y ! nat x = 0)"

definition get_neighbors :: "astar \<Rightarrow> int \<Rightarrow> int \<Rightarrow> pos list" where
  "get_neighbors A x y =
     filter (\<lambda>(new_x, new_y). is_valid_position A new_x new_y)
       (map (\<lambda>(dx, dy). (x + dx, y + dy)) [(0, 1), (1, 0), (0, - 1), (- 1, 0)])"

definition heuristic :: "pos \<Rightarrow> pos \<Rightarrow> int" where
  "heuristic a b = \<bar>fst a - fst b\<bar> + \<bar>snd a - snd b\<bar>"

subsection \<open>Search state\<close>

text \<open>
  The working sets of \<open>find_path\<close>.  The dictionaries are maps.  The Python set
  \<open>open_set\<close> is a list without duplicates; the order in which a scan of the set visits
  its members is not fixed by the language, so the \<open>k\<close>-th scan visits them by an
  arbitrary rank \<open>order k\<close> (any traversal order is some rank).
\<close>

record search =
  open_set :: "pos list"
  came_from :: "pos \<rightharpoonup> pos"
  g_score :: "pos \<rightharpoonup> int"
  f_score :: "pos \<rightharpoonup> int"

text \<open>Keys \<open>f_score.get(x, float('inf'))\<close>: \<open>None\<close> is \<open>+\<infinity>\<close>.\<close>

fun key_less :: "int option \<Rightarrow> int option \<Rightarrow> bool" where
  "key_less (Some a) (Some b) = (a < b)"
| "key_less (Some a) None = True"
| "key_less None _ = False"

text \<open>\<open>min(iterable, key=...)\<close>: the first member with the least key.\<close>

fun py_min_from :: "('a \<Rightarrow> int option) \<Rightarrow> 'a \<Rightarrow> 'a list \<Rightarrow> 'a" where
  "py_min_from key best [] = best"
| "py_min_from key best (x # xs) =
     py_min_from key (if key_less (key x) (key best) then x else best) xs"

text \<open>One pass of the body of \<open>for neighbor in self.get_neighbors(*current)\<close>.\<close>

definition relax :: "pos \<Rightarrow> pos \<Rightarrow> pos \<Rightarrow> search \<Rightarrow> error + search" where
  "relax goal current neighbor s =
     (case g_score s current of
        None \<Rightarrow> Inl KeyError
      | Some gc \<Rightarrow>
          let tentative_g_score = gc + 1
          in if (case g_score s neighbor of None \<Rightarrow> True | Some gn \<Rightarrow> tentative_g_score < gn)
             then Inr (s\<lparr> came_from := (came_from s)(neighbor \<mapsto> current),
                           g_score := (g_score s)(neighbor \<mapsto> tentative_g_score),
                           f_score := (f_score s)(neighbor \<mapsto>
                                         tentative_g_score + heuristic neighbor goal),
                           open_set := (if neighbor \<in> set (open_set s) then open_set s
                                        else open_set s @ [neighbor]) \<rparr>)
             else Inr s)"

fun relax_all :: "pos \<Rightarrow> pos \<Rightarrow> pos list \<Rightarrow> search \<Rightarrow> error + search" where
  "relax_all goal current [] s = Inr s"
| "relax_all goal current (n # ns) s =
     (case relax goal current n s of
        Inl e \<Rightarrow> Inl e
      | Inr s' \<Rightarrow> relax_all goal current ns s')"

text \<open>
  Path reconstruction: \<open>while current in came_from\<close>.  A cyclic \<open>came_from\<close> would keep
  it running, so it is a partial function.
\<close>

partial_function (option) walk_back :: "(pos \<rightharpoonup> pos) \<Rightarrow> pos \<Rightarrow> pos list \<Rightarrow> pos list option" where
  "walk_back cf current path =
     (case cf current of
        Some prev \<Rightarrow> walk_back cf prev (path @ [current])
      | None \<Rightarrow> Some path)"

declare walk_back.simps [code]

definition reconstruct :: "(pos \<rightharpoonup> pos) \<Rightarrow> pos \<Rightarrow> pos \<Rightarrow> pos list option" where
  "reconstruct cf start current =
     map_option (\<lambda>path. rev (path @ [start])) (walk_back cf current [])"

subsection \<open>The search\<close>

text \<open>
  Where \<open>find_path\<close> returned: \<open>Rejected\<close> is the early \<open>return None\<close> before the search,
  \<open>Found path k\<close> the \<open>return path\<close> after \<open>k\<close> expansions, \<open>Exhausted k\<close> the final
  \<open>return None\<close> once the loop test \<open>while open_set\<close> failed, after \<open>k\<close> expansions.
\<close>

datatype outcome = Rejected | Found "pos list" nat | Exhausted nat

fun returned :: "outcome \<Rightarrow> pos list option" where
  "returned Rejected = None"
| "returned (Found path k) = Some path"
| "returned (Exhausted k) = None"

fun expansions :: "outcome \<Rightarrow> nat" where
  "expansions Rejected = 0"
| "expansions (Found path k) = k"
| "expansions (Exhausted k) = k"

partial_function (option) search_loop ::
  "astar \<Rightarrow> (nat \<Rightarrow> pos \<Rightarrow> nat) \<Rightarrow> pos \<Rightarrow> pos \<Rightarrow> nat \<Rightarrow> search \<Rightarrow> (error + outcome) option" where
  "search_loop A order start goal k s =
     (case sort_key (order k) (open_set s) of
        [] \<Rightarrow> Some (Inr (Exhausted k))
      | c # cs \<Rightarrow>
          let current = py_min_from (f_score s) c cs
          in if current = goal
             then map_option (\<lambda>path. Inr (Found path k)) (reconstruct (came_from s) start current)
             else (case relax_all goal current (get_neighbors A (fst current) (snd current))
                          (s\<lparr> open_set := removeAll current (open_set s) \<rparr>) of
                     Inl e \<Rightarrow> Some (Inl e)
                   | Inr s' \<Rightarrow> search_loop A order start goal (Suc k) s'))"

declare search_loop.simps [code]

definition initial_search :: "pos \<Rightarrow> pos \<Rightarrow> search" where
  "initial_search start goal =
     \<lparr> open_set = [start], came_from = Map.empty, g_score = [start \<mapsto> 0],
       f_score = [start \<mapsto> heuristic start goal] \<rparr>"

definition find_path :: "astar \<Rightarrow> (nat \<Rightarrow> pos \<Rightarrow> nat) \<Rightarrow> pos \<Rightarrow> pos \<Rightarrow> (error + outcome) option" where
  "find_path A order start goal =
     (if \<not> is_valid_position A (fst start) (snd start) \<or> \<not> is_valid_position A (fst goal) (snd goal)
      then Some (Inr Rejected)
      else search_loop A order start goal 0 (initial_search start goal))"

subsection \<open>Grid paths\<close>

text \<open>
  Two cells are adjacent when they differ by one unit in exactly one axis.  A route from
  \<open>start\<close> to \<open>goal\<close> is a non-empty list of valid cells, consecutive cells adjacent.
\<close>

definition adjacent :: "pos \<Rightarrow> pos \<Rightarrow> bool" where
  "adjacent p q = (\<bar>fst p - fst q\<bar> + \<bar>snd p - snd q\<bar> = 1)"

fun four_connected :: "pos list \<Rightarrow> bool" where
  "four_connected [] = True"
| "four_connected [p] = True"
| "four_connected (p # q # ps) = (adjacent p q \<and> four_connected (q # ps))"

definition valid :: "astar \<Rightarrow> pos \<Rightarrow> bool" where
  "valid A p = is_valid_position A (fst p) (snd p)"

definition route :: "astar \<Rightarrow> pos \<Rightarrow> pos \<Rightarrow> pos list \<Rightarrow> bool" where
  "route A start goal ps =
     (ps \<noteq> [] \<and> hd ps = start \<and> last ps = goal \<and> list_all (valid A) ps \<and> four_connected ps)"

subsection \<open>Invariant of the search loop\<close>

text \<open>
  \<open>relaxed s p q\<close>: the scores of \<open>p\<close> and \<open>q\<close> are known and \<open>q\<close> costs at most one step
  more than \<open>p\<close>.
\<close>

definition relaxed :: "search \<Rightarrow> pos \<Rightarrow> pos \<Rightarrow> bool" where
  "relaxed s p q = (\<exists>gp gq. g_score s p = Some gp \<and> g_score s q = Some gq \<and> gq \<le> gp + 1)"

definition inv_core :: "astar \<Rightarrow> pos \<Rightarrow> pos \<Rightarrow> search \<Rightarrow> bool" where
  "inv_core A start goal s =
     (set (open_set s) \<subseteq> dom (g_score s) \<and>
      g_score s start = Some 0 \<and>
      (\<forall>p g. g_score s p = Some g \<longrightarrow>
         valid A p \<and> 0 \<le> g \<and> f_score s p = Some (g + heuristic p goal)) \<and>
      (\<forall>p c. came_from s p = Some c \<longrightarrow>
         (\<exists>gp gc. g_score s p = Some gp \<and> g_score s c = Some gc \<and> gc + 1 \<le> gp)
         \<and> valid A p \<and> adjacent c p) \<and>
      (\<forall>p. p \<in> dom (g_score s) \<longrightarrow> p \<noteq> start \<longrightarrow> p \<in> dom (came_from s)) \<and>
      (goal \<in> dom (g_score s) \<longrightarrow> goal \<in> set (open_set s)))"

text \<open>
  Every scored cell outside the frontier, other than \<open>c\<close>, has all its valid neighbours
  relaxed.
\<close>

definition closed_except :: "astar \<Rightarrow> search \<Rightarrow> pos set \<Rightarrow> bool" where
  "closed_except A s X =
     (\<forall>p q. p \<in> dom (g_score s) \<longrightarrow> p \<notin> set (open_set s) \<longrightarrow> p \<notin> X \<longrightarrow>
        valid A q \<longrightarrow> adjacent p q \<longrightarrow> relaxed s p q)"

definition search_inv :: "astar \<Rightarrow> pos \<Rightarrow> pos \<Rightarrow> search \<Rightarrow> bool" where
  "search_inv A start goal s = (inv_core A start goal s \<and> closed_except A s {})"

text \<open>Inside the \<open>for\<close> loop over the neighbours of \<open>c\<close>, the ones in \<open>D\<close> being done.\<close>

definition mid_inv :: "astar \<Rightarrow> pos \<Rightarrow> pos \<Rightarrow> pos \<Rightarrow> pos set \<Rightarrow> search \<Rightarrow> bool" where
  "mid_inv A start goal c D s =
     (inv_core A start goal s \<and> closed_except A s {c} \<and> c \<in> dom (g_score s) \<and>
      (\<forall>q\<in>D. relaxed s c q))"

text \<open>The termination measure: unscored valid cells, sum of the scores, frontier size.\<close>

definition unscored :: "astar \<Rightarrow> search \<Rightarrow> nat" where
  "unscored A s = card ({p. valid A p} - dom (g_score s))"

definition score_sum :: "astar \<Rightarrow> search \<Rightarrow> nat" where
  "score_sum A s = (\<Sum>p \<in> {p. valid A p} \<inter> dom (g_score s). nat (the (g_score s p)))"

definition scores_less :: "astar \<Rightarrow> search \<Rightarrow> search \<Rightarrow> bool" where
  "scores_less A s' s =
     (unscored A s' < unscored A s \<or>
      (unscored A s' = unscored A s \<and> score_sum A s' < score_sum A s))"

definition search_measure :: "astar \<Rightarrow> (search \<times> search) set" where
  "search_measure A =
     measures [unscored A, score_sum A, \<lambda>s. length (open_set s)]"

text \<open>What a return of the loop started at expansion count \<open>k\<close> guarantees.\<close>

fun loop_post :: "astar \<Rightarrow> pos \<Rightarrow> pos \<Rightarrow> nat \<Rightarrow> outcome \<Rightarrow> bool" where
  "loop_post A start goal k Rejected = False"
| "loop_post A start goal k (Found path k') =
     (route A start goal path \<and> k \<le> k' \<and>
      (\<forall>ps. route A start goal ps \<longrightarrow> length path \<le> length ps))"
| "loop_post A start goal k (Exhausted k') = (k \<le> k' \<and> (\<forall>ps. \<not> route A start goal ps))"

subsection \<open>Example grids\<close>

text \<open>
  \<open>AStar(3, 2, [(1, 0)])\<close>: the cell between \<open>(0, 0)\<close> and \<open>(2, 0)\<close> is occupied and the
  way round leads through the row \<open>y = 1\<close>.  \<open>AStar(3, 1, [(1, 0)])\<close>: the same wall with
  no way round.  \<open>first_come\<close> scans the frontier in insertion order.
\<close>

definition detour_grid :: astar where
  "detour_grid = \<lparr> width = 3, height = 2, obstacle_list = [(1, 0)],
                   grid = [[0, 1, 0], [0, 0, 0]] \<rparr>"

definition walled_grid :: astar where
  "walled_grid = \<lparr> width = 3, height = 1, obstacle_list = [(1, 0)], grid = [[0, 1, 0]] \<rparr>"


definition first_come :: "nat \<Rightarrow> pos \<Rightarrow> nat" where
  "first_come k p = 0"

section \<open>Properties of the obstacle cost\<close>

lemma foldl_const: "foldl (\<lambda>m p. m) a xs = a"
  by (induction xs) auto

lemma min_dist_of_no_obstacles: "obstacles P = [] \<Longrightarrow> min_dist_of P trajectory = PInf"
  by (simp add: min_dist_of_def foldl_const)

lemma obstacles_init_empty: "obstacles (DWAPlanner_init w h []) = []"
  by (simp add: DWAPlanner_init_def)

text \<open>
  C2: with an empty obstacle set the obstacle cost should be \<open>0\<close>, so that the term adds
  nothing to the total cost.  The code does not do that: \<open>min_dist\<close> is still
  \<open>float("inf")\<close> after the loops, and the guard on the last line returns \<open>float("inf")\<close>
  where \<open>1.0 / min_dist\<close> would have been \<open>0.0\<close>.  For every trajectory, a planner
  constructed without obstacles returns \<open>+\<infinity>\<close>.
\<close>

theorem C2_obstacle_cost_empty_is_inf:
  "calc_obstacle_cost (DWAPlanner_init w h []) trajectory = Inr PInf"
  by (simp add: calc_obstacle_cost_def min_dist_of_no_obstacles obstacles_init_empty)

text \<open>
  The same at the input \<open>DWAPlanner(10, 10, []).calc_obstacle_cost([(0.0, 0.0)])\<close>: the
  result is not \<open>0\<close>, and added to the finite goal and speed terms it makes the total
  cost \<open>+\<infinity>\<close>.
\<close>

lemma obstacle_cost_empty_not_zero:
  "calc_obstacle_cost (DWAPlanner_init 10 10 []) [(0, 0)] \<noteq> Inr (Fin 0)"
  by (simp add: calc_obstacle_cost_def min_dist_of_no_obstacles obstacles_init_empty)

lemma total_cost_with_inf_obstacle_term:
  "fl_add (fl_add (Fin goal_term) (Fin speed_term)) (fl_scale 1 PInf) = PInf"
  by simp

text \<open>
  C3: a trajectory that touches an obstacle (minimum distance exactly \<open>0\<close>) makes
  \<open>calc_obstacle_cost\<close> raise \<open>ZeroDivisionError\<close> instead of returning \<open>+\<infinity>\<close>: planner
  with the single obstacle \<open>(1, 1)\<close>, trajectory \<open>[(1.0, 1.0)]\<close>.
\<close>

theorem C3_obstacle_cost_zero_distance_raises:
  "calc_obstacle_cost (DWAPlanner_init 5 5 [(1, 1)]) [(1, 1)] = Inl ZeroDivisionError"
  by (simp add: calc_obstacle_cost_def min_dist_of_def DWAPlanner_init_def closer_def
      obs_dist_def)

section \<open>Length of a rollout\<close>

lemma rollout_tick_run:
  "tick_run (dt P) (predict_time P) t ts \<Longrightarrow>
     \<exists>tr. rollout P v w x t traj = Some tr \<and> length tr = length traj + length ts"
proof (induction ts arbitrary: t x traj)
  case Nil
  then show ?case by (subst rollout.simps) simp
next
  case (Cons t' ts)
  define x1 where "x1 = motion x (v, w) (of_rat (dt P))"
  from Cons.prems have le: "t \<le> predict_time P" and nxt: "b64_add t (dt P) = t'"
    and rest: "tick_run (dt P) (predict_time P) t' ts"
    by simp_all
  have step: "rollout P v w x t traj = rollout P v w x1 t' (traj @ [(px x1, py x1)])"
    using le nxt by (subst rollout.simps) (simp add: x1_def Let_def)
  from Cons.IH[OF rest, of x1 "traj @ [(px x1, py x1)]"] step show ?case
    by auto
qed

lemma dt_init: "dt (DWAPlanner_init w h obs) = b64_round (1 / 10)"
  and predict_time_init: "predict_time (DWAPlanner_init w h obs) = b64_round 3"
  by (simp_all add: DWAPlanner_init_def)

text \<open>The binary64 values of \<open>0.1\<close> and \<open>3.0\<close>, and the thirty float additions of a rollout.\<close>

lemma b64_dt: "b64_round (1 / 10) = 3602879701896397 / 36028797018963968"
  by code_simp

lemma b64_predict_time: "b64_round 3 = 3"
  by code_simp

lemma tick_01: "b64_add (0) (3602879701896397 / 36028797018963968) = 3602879701896397 / 36028797018963968"
  by code_simp

lemma tick_02: "b64_add (3602879701896397 / 36028797018963968) (3602879701896397 / 36028797018963968) = 3602879701896397 / 18014398509481984"
  by code_simp

lemma tick_03: "b64_add (3602879701896397 / 18014398509481984) (3602879701896397 / 36028797018963968) = 1351079888211149 / 4503599627370496"
  by code_simp

lemma tick_04: "b64_add (1351079888211149 / 4503599627370496) (3602879701896397 / 36028797018963968) = 3602879701896397 / 9007199254740992"
  by code_simp

lemma tick_05: "b64_add (3602879701896397 / 9007199254740992) (3602879701896397 / 36028797018963968) = 1 / 2"
  by code_simp

lemma tick_06: "b64_add (1 / 2) (3602879701896397 / 36028797018963968) = 5404319552844595 / 9007199254740992"
  by code_simp

lemma tick_07: "b64_add (5404319552844595 / 9007199254740992) (3602879701896397 / 36028797018963968) = 3152519739159347 / 4503599627370496"
  by code_simp

lemma tick_08: "b64_add (3152519739159347 / 4503599627370496) (3602879701896397 / 36028797018963968) = 7205759403792793 / 9007199254740992"
  by code_simp

lemma tick_09: "b64_add (7205759403792793 / 9007199254740992) (3602879701896397 / 36028797018963968) = 2026619832316723 / 2251799813685248"
  by code_simp

lemma tick_10: "b64_add (2026619832316723 / 2251799813685248) (3602879701896397 / 36028797018963968) = 9007199254740991 / 9007199254740992"
  by code_simp

lemma tick_11: "b64_add (9007199254740991 / 9007199254740992) (3602879701896397 / 36028797018963968) = 4953959590107545 / 4503599627370496"
  by code_simp

lemma tick_12: "b64_add (4953959590107545 / 4503599627370496) (3602879701896397 / 36028797018963968) = 5404319552844595 / 4503599627370496"
  by code_simp

lemma tick_13: "b64_add (5404319552844595 / 4503599627370496) (3602879701896397 / 36028797018963968) = 5854679515581645 / 4503599627370496"
  by code_simp

lemma tick_14: "b64_add (5854679515581645 / 4503599627370496) (3602879701896397 / 36028797018963968) = 6305039478318695 / 4503599627370496"
  by code_simp

lemma tick_15: "b64_add (6305039478318695 / 4503599627370496) (3602879701896397 / 36028797018963968) = 6755399441055745 / 4503599627370496"
  by code_simp

lemma tick_16: "b64_add (6755399441055745 / 4503599627370496) (3602879701896397 / 36028797018963968) = 7205759403792795 / 4503599627370496"
  by code_simp

lemma tick_17: "b64_add (7205759403792795 / 4503599627370496) (3602879701896397 / 36028797018963968) = 7656119366529845 / 4503599627370496"
  by code_simp

lemma tick_18: "b64_add (7656119366529845 / 4503599627370496) (3602879701896397 / 36028797018963968) = 8106479329266895 / 4503599627370496"
  by code_simp

lemma tick_19: "b64_add (8106479329266895 / 4503599627370496) (3602879701896397 / 36028797018963968) = 8556839292003945 / 4503599627370496"
  by code_simp

lemma tick_20: "b64_add (8556839292003945 / 4503599627370496) (3602879701896397 / 36028797018963968) = 4503599627370497 / 2251799813685248"
  by code_simp

lemma tick_21: "b64_add (4503599627370497 / 2251799813685248) (3602879701896397 / 36028797018963968) = 2364389804369511 / 1125899906842624"
  by code_simp

lemma tick_22: "b64_add (2364389804369511 / 1125899906842624) (3602879701896397 / 36028797018963968) = 4953959590107547 / 2251799813685248"
  by code_simp

lemma tick_23: "b64_add (4953959590107547 / 2251799813685248) (3602879701896397 / 36028797018963968) = 647392446434509 / 281474976710656"
  by code_simp

lemma tick_24: "b64_add (647392446434509 / 281474976710656) (3602879701896397 / 36028797018963968) = 5404319552844597 / 2251799813685248"
  by code_simp

lemma tick_25: "b64_add (5404319552844597 / 2251799813685248) (3602879701896397 / 36028797018963968) = 2814749767106561 / 1125899906842624"
  by code_simp

lemma tick_26: "b64_add (2814749767106561 / 1125899906842624) (3602879701896397 / 36028797018963968) = 5854679515581647 / 2251799813685248"
  by code_simp

lemma tick_27: "b64_add (5854679515581647 / 2251799813685248) (3602879701896397 / 36028797018963968) = 1519964874237543 / 562949953421312"
  by code_simp

lemma tick_28: "b64_add (1519964874237543 / 562949953421312) (3602879701896397 / 36028797018963968) = 6305039478318697 / 2251799813685248"
  by code_simp

lemma tick_29: "b64_add (6305039478318697 / 2251799813685248) (3602879701896397 / 36028797018963968) = 3265109729843611 / 1125899906842624"
  by code_simp

lemma tick_30: "b64_add (3265109729843611 / 1125899906842624) (3602879701896397 / 36028797018963968) = 6755399441055747 / 2251799813685248"
  by code_simp

lemmas tick_steps = tick_01 tick_02 tick_03 tick_04 tick_05 tick_06 tick_07 tick_08 tick_09 tick_10 tick_11 tick_12 tick_13 tick_14 tick_15 tick_16 tick_17 tick_18 tick_19 tick_20 tick_21 tick_22 tick_23 tick_24 tick_25 tick_26 tick_27 tick_28 tick_29 tick_30

lemma tick_run_default:
  "tick_run (3602879701896397 / 36028797018963968) 3 0
     [3602879701896397 / 36028797018963968, 3602879701896397 / 18014398509481984,
      1351079888211149 / 4503599627370496, 3602879701896397 / 9007199254740992, 1 / 2,
      5404319552844595 / 9007199254740992, 3152519739159347 / 4503599627370496,
      7205759403792793 / 9007199254740992, 2026619832316723 / 2251799813685248,
      9007199254740991 / 9007199254740992, 4953959590107545 / 4503599627370496,
      5404319552844595 / 4503599627370496, 5854679515581645 / 4503599627370496,
      6305039478318695 / 4503599627370496, 6755399441055745 / 4503599627370496,
      7205759403792795 / 4503599627370496, 7656119366529845 / 4503599627370496,
      8106479329266895 / 4503599627370496, 8556839292003945 / 4503599627370496,
      4503599627370497 / 2251799813685248, 2364389804369511 / 1125899906842624,
      4953959590107547 / 2251799813685248, 647392446434509 / 281474976710656,
      5404319552844597 / 2251799813685248, 2814749767106561 / 1125899906842624,
      5854679515581647 / 2251799813685248, 1519964874237543 / 562949953421312,
      6305039478318697 / 2251799813685248, 3265109729843611 / 1125899906842624,
      6755399441055747 / 2251799813685248]"
  by (simp add: tick_steps)

lemma horizon_ratio: "nat \<lceil>3 / (3602879701896397 / 36028797018963968 :: rat)\<rceil> = 30"
  by code_simp

text \<open>
  C8: for every state and candidate control, the rollout of a constructed planner ends and
  its trajectory has \<open>\<lceil>predict_time / dt\<rceil>\<close> points (thirty).
\<close>

theorem C8_trajectory_length:
  "\<exists>tr. calc_trajectory (DWAPlanner_init w h obs) x v yaw_rate = Some tr
     \<and> length tr = nat \<lceil>predict_time (DWAPlanner_init w h obs) / dt (DWAPlanner_init w h obs)\<rceil>
     \<and> length tr = 30"
proof -
  let ?P = "DWAPlanner_init w h obs"
  have d: "dt ?P = 3602879701896397 / 36028797018963968"
    and p: "predict_time ?P = 3"
    by (simp_all only: dt_init predict_time_init b64_dt b64_predict_time)
  have "tick_run (dt ?P) (predict_time ?P) 0
     [3602879701896397 / 36028797018963968, 3602879701896397 / 18014398509481984,
      1351079888211149 / 4503599627370496, 3602879701896397 / 9007199254740992, 1 / 2,
      5404319552844595 / 9007199254740992, 3152519739159347 / 4503599627370496,
      7205759403792793 / 9007199254740992, 2026619832316723 / 2251799813685248,
      9007199254740991 / 9007199254740992, 4953959590107545 / 4503599627370496,
      5404319552844595 / 4503599627370496, 5854679515581645 / 4503599627370496,
      6305039478318695 / 4503599627370496, 6755399441055745 / 4503599627370496,
      7205759403792795 / 4503599627370496, 7656119366529845 / 4503599627370496,
      8106479329266895 / 4503599627370496, 8556839292003945 / 4503599627370496,
      4503599627370497 / 2251799813685248, 2364389804369511 / 1125899906842624,
      4953959590107547 / 2251799813685248, 647392446434509 / 281474976710656,
      5404319552844597 / 2251799813685248, 2814749767106561 / 1125899906842624,
      5854679515581647 / 2251799813685248, 1519964874237543 / 562949953421312,
      6305039478318697 / 2251799813685248, 3265109729843611 / 1125899906842624,
      6755399441055747 / 2251799813685248]"
    unfolding d p by (rule tick_run_default)
  from rollout_tick_run[OF this, where x = x and v = v and w = yaw_rate and traj = "[]"]
  obtain tr where "calc_trajectory ?P x v yaw_rate = Some tr" "length tr = 30"
    by (auto simp: calc_trajectory_def)
  moreover have "nat \<lceil>predict_time ?P / dt ?P\<rceil> = 30"
    unfolding d p by (rule horizon_ratio)
  ultimately show ?thesis by simp
qed

section \<open>Basic facts\<close>

lemma key_less_irrefl: "\<not> key_less a a"
  by (cases a) auto

lemma key_less_trans: "key_less a b \<Longrightarrow> key_less b c \<Longrightarrow> key_less a c"
  by (cases a; cases b; cases c) auto

lemma key_less_weak: "\<not> key_less a b \<Longrightarrow> \<not> key_less b c \<Longrightarrow> \<not> key_less a c"
  by (cases a; cases b; cases c) auto

lemma py_min_from_mem: "py_min_from key b xs \<in> insert b (set xs)"
  by (induction xs arbitrary: b) (auto split: if_splits)

lemma py_min_from_le_best: "\<not> key_less (key b) (key (py_min_from key b xs))"
proof (induction xs arbitrary: b)
  case Nil
  show ?case by (simp add: key_less_irrefl)
next
  case (Cons x xs)
  show ?case
  proof (cases "key_less (key x) (key b)")
    case True
    have "\<not> key_less (key x) (key (py_min_from key x xs))" by (rule Cons.IH)
    moreover have "\<not> key_less (key b) (key x)"
      using True key_less_trans key_less_irrefl by blast
    ultimately show ?thesis using True key_less_weak by simp
  next
    case False
    then show ?thesis using Cons.IH[of b] by simp
  qed
qed

lemma py_min_from_least:
  "x \<in> insert b (set xs) \<Longrightarrow> \<not> key_less (key x) (key (py_min_from key b xs))"
proof (induction xs arbitrary: b)
  case Nil
  then show ?case by (simp add: key_less_irrefl)
next
  case (Cons y ys)
  let ?b' = "if key_less (key y) (key b) then y else b"
  have res: "py_min_from key b (y # ys) = py_min_from key ?b' ys" by simp
  consider "x = b" | "x = y" | "x \<in> set ys" using Cons.prems by auto
  then show ?case
  proof cases
    case 1
    then show ?thesis using py_min_from_le_best[of key b "y # ys"] by simp
  next
    case 2
    show ?thesis
    proof (cases "key_less (key y) (key b)")
      case True
      then show ?thesis using 2 py_min_from_le_best[of key y ys] by simp
    next
      case False
      have "\<not> key_less (key b) (key (py_min_from key b ys))" by (rule py_min_from_le_best)
      with False have "\<not> key_less (key y) (key (py_min_from key b ys))"
        using key_less_weak by blast
      then show ?thesis using 2 False by simp
    qed
  next
    case 3
    then show ?thesis using Cons.IH[of ?b'] by (simp del: py_min_from.simps add: res)
  qed
qed

lemma set_get_neighbors:
  "set (get_neighbors A x y) =
     {q \<in> {(x, y + 1), (x + 1, y), (x, y - 1), (x - 1, y)}. valid A q}"
  by (auto simp: get_neighbors_def valid_def)

lemma adjacent_iff:
  "adjacent (x, y) (a, b) \<longleftrightarrow>
     (a = x \<and> b = y + 1) \<or> (a = x + 1 \<and> b = y) \<or> (a = x \<and> b = y - 1) \<or> (a = x - 1 \<and> b = y)"
  unfolding adjacent_def fst_conv snd_conv by arith

lemma neighbors_iff:
  "q \<in> set (get_neighbors A (fst p) (snd p)) \<longleftrightarrow> valid A q \<and> adjacent p q"
proof (cases p; cases q)
  fix x y a b
  assume "p = (x, y)" "q = (a, b)"
  then show ?thesis
    by (simp add: set_get_neighbors adjacent_iff) blast
qed

lemma adjacent_sym: "adjacent p q \<Longrightarrow> adjacent q p"
  by (auto simp: adjacent_def)

lemma adjacent_neq: "adjacent p q \<Longrightarrow> p \<noteq> q"
  by (auto simp: adjacent_def)

lemma heuristic_self: "heuristic p p = 0"
  by (simp add: heuristic_def)



lemma heuristic_step: "adjacent p q \<Longrightarrow> heuristic p r \<le> heuristic q r + 1"
  by (auto simp: adjacent_def heuristic_def)

lemma connected_heuristic:
  "ps \<noteq> [] \<Longrightarrow> four_connected ps \<Longrightarrow> heuristic (hd ps) (last ps) \<le> int (length ps) - 1"
proof (induction ps rule: four_connected.induct)
  case 1
  then show ?case by simp
next
  case (2 p)
  then show ?case by (simp add: heuristic_self)
next
  case (3 p q ps)
  then have "heuristic q (last (q # ps)) \<le> int (length (q # ps)) - 1" by simp
  moreover have "heuristic p (last (q # ps)) \<le> heuristic q (last (q # ps)) + 1"
    using 3 by (intro heuristic_step) simp
  ultimately show ?case by simp
qed

lemma connected_snoc:
  "four_connected ps \<Longrightarrow> ps \<noteq> [] \<Longrightarrow> adjacent (last ps) p \<Longrightarrow> four_connected (ps @ [p])"
  by (induction ps rule: four_connected.induct) auto

lemma route_single: "valid A p \<Longrightarrow> route A p p [p]"
  by (simp add: route_def)

lemma route_snoc:
  "route A s c ps \<Longrightarrow> adjacent c p \<Longrightarrow> valid A p \<Longrightarrow> route A s p (ps @ [p])"
  by (auto simp: route_def connected_snoc)


lemma finite_valid: "finite {p. valid A p}"
proof -
  have "{p. valid A p} \<subseteq> {0..<width A} \<times> {0..<height A}"
    by (auto simp: valid_def is_valid_position_def)
  then show ?thesis by (rule finite_subset) simp
qed

lemma wf_search_measure: "wf (search_measure A)"
  by (simp add: search_measure_def)

lemma search_measure_iff:
  "(s', s) \<in> search_measure A \<longleftrightarrow>
     scores_less A s' s \<or>
     (unscored A s' = unscored A s \<and> score_sum A s' = score_sum A s
        \<and> length (open_set s') < length (open_set s))"
  by (auto simp: search_measure_def scores_less_def)

lemma scores_less_trans: "scores_less A s'' s' \<Longrightarrow> scores_less A s' s \<Longrightarrow> scores_less A s'' s"
  by (auto simp: scores_less_def)

text \<open>A new cell gets a score.\<close>

lemma unscored_new:
  assumes "valid A n" "g_score s n = None" "g_score s' = (g_score s)(n \<mapsto> t)"
  shows "unscored A s' < unscored A s"
proof -
  have "{p. valid A p} - dom (g_score s') = ({p. valid A p} - dom (g_score s)) - {n}"
    using assms(3) by auto
  moreover have "n \<in> {p. valid A p} - dom (g_score s)"
    using assms(1,2) by auto
  moreover have "finite ({p. valid A p} - dom (g_score s))"
    using finite_valid by simp
  ultimately have "card ({p. valid A p} - dom (g_score s')) < card ({p. valid A p} - dom (g_score s))"
    using card_Diff1_less[of "{p. valid A p} - dom (g_score s)" n] by simp
  then show ?thesis
    unfolding unscored_def .
qed

text \<open>A scored cell gets a smaller score.\<close>

lemma score_sum_lower:
  assumes "valid A n" "g_score s n = Some gn" "0 \<le> t" "t < gn"
    "g_score s' = (g_score s)(n \<mapsto> t)"
  shows "unscored A s' = unscored A s \<and> score_sum A s' < score_sum A s"
proof -
  have d: "dom (g_score s') = dom (g_score s)"
    using assms(2,5) by auto
  let ?S = "{p. valid A p} \<inter> dom (g_score s)"
  have fin: "finite ?S" using finite_valid by simp
  have mem: "n \<in> ?S" using assms(1,2) by auto
  have "(\<Sum>p\<in>?S. nat (the (g_score s' p))) < (\<Sum>p\<in>?S. nat (the (g_score s p)))"
  proof (rule sum_strict_mono_ex1[OF fin])
    show "\<forall>p\<in>?S. nat (the (g_score s' p)) \<le> nat (the (g_score s p))"
      using assms(2,4,5) by auto
    show "\<exists>p\<in>?S. nat (the (g_score s' p)) < nat (the (g_score s p))"
      using mem assms(2,3,4,5) by (intro bexI[of _ n]) auto
  qed
  then show ?thesis by (simp add: unscored_def score_sum_def d)
qed

section \<open>One relaxation keeps the invariant\<close>

lemma inv_core_open: "inv_core A start goal s \<Longrightarrow> set (open_set s) \<subseteq> dom (g_score s)"
  unfolding inv_core_def by blast

lemma inv_core_start: "inv_core A start goal s \<Longrightarrow> g_score s start = Some 0"
  unfolding inv_core_def by blast

lemma inv_core_score:
  "inv_core A start goal s \<Longrightarrow> g_score s p = Some g \<Longrightarrow>
     valid A p \<and> 0 \<le> g \<and> f_score s p = Some (g + heuristic p goal)"
  unfolding inv_core_def by blast

lemma inv_core_came:
  "inv_core A start goal s \<Longrightarrow> came_from s p = Some c \<Longrightarrow>
     (\<exists>gp gc. g_score s p = Some gp \<and> g_score s c = Some gc \<and> gc + 1 \<le> gp)
     \<and> valid A p \<and> adjacent c p"
  unfolding inv_core_def by blast

lemma inv_core_dom:
  "inv_core A start goal s \<Longrightarrow> p \<in> dom (g_score s) \<Longrightarrow> p \<noteq> start \<Longrightarrow> p \<in> dom (came_from s)"
  unfolding inv_core_def by blast

lemma inv_core_goal:
  "inv_core A start goal s \<Longrightarrow> goal \<in> dom (g_score s) \<Longrightarrow> goal \<in> set (open_set s)"
  unfolding inv_core_def by blast

lemma closed_exceptD:
  "closed_except A s X \<Longrightarrow> p \<in> dom (g_score s) \<Longrightarrow> p \<notin> set (open_set s) \<Longrightarrow> p \<notin> X \<Longrightarrow>
     valid A q \<Longrightarrow> adjacent p q \<Longrightarrow> relaxed s p q"
  unfolding closed_except_def by blast

lemma relax_update_inv:
  assumes mid: "mid_inv A start goal c D s"
    and gc: "g_score s c = Some gc"
    and n: "valid A n" "adjacent c n"
    and upd: "g_score s n = None \<or> (\<exists>gn. g_score s n = Some gn \<and> gc + 1 < gn)"
    and G: "g_score s' = (g_score s)(n \<mapsto> gc + 1)"
    and C: "came_from s' = (came_from s)(n \<mapsto> c)"
    and F: "f_score s' = (f_score s)(n \<mapsto> gc + 1 + heuristic n goal)"
    and O: "set (open_set s') = insert n (set (open_set s))"
  shows "mid_inv A start goal c (insert n D) s'"
proof -
  from mid have core: "inv_core A start goal s" and cl: "closed_except A s {c}"
    and D: "\<forall>q\<in>D. relaxed s c q"
    by (simp_all add: mid_inv_def)
  note I1 = inv_core_open[OF core] and I2 = inv_core_start[OF core]
    and I3 = inv_core_score[OF core] and I4 = inv_core_came[OF core]
    and I5 = inv_core_dom[OF core] and I7 = inv_core_goal[OF core]
  have gc0: "0 \<le> gc" using I3[OF gc] by simp
  have cn: "c \<noteq> n" using n(2) by (rule adjacent_neq)
  have nstart: "n \<noteq> start" using upd I2 gc0 by auto
  have lower: "\<And>gn. g_score s n = Some gn \<Longrightarrow> gc + 1 < gn" using upd by auto
  have J1: "set (open_set s') \<subseteq> dom (g_score s')"
    using I1 by (auto simp: G O)
  have J2: "g_score s' start = Some 0"
    using I2 nstart by (simp add: G)
  have J3: "\<forall>p g. g_score s' p = Some g \<longrightarrow>
               valid A p \<and> 0 \<le> g \<and> f_score s' p = Some (g + heuristic p goal)"
    using I3 n(1) gc0 by (auto simp: G F)
  have J4: "\<forall>p c'. came_from s' p = Some c' \<longrightarrow>
               (\<exists>gp gc'. g_score s' p = Some gp \<and> g_score s' c' = Some gc' \<and> gc' + 1 \<le> gp)
               \<and> valid A p \<and> adjacent c' p"
  proof (intro allI impI)
    fix p c'
    assume a: "came_from s' p = Some c'"
    show "(\<exists>gp gc'. g_score s' p = Some gp \<and> g_score s' c' = Some gc' \<and> gc' + 1 \<le> gp)
            \<and> valid A p \<and> adjacent c' p"
    proof (cases "p = n")
      case True
      then have "c' = c" using a by (simp add: C)
      then show ?thesis using True gc cn n by (simp add: G)
    next
      case False
      then have old: "came_from s p = Some c'" using a by (simp add: C)
      from I4[OF old] obtain gp gc' where
        o: "g_score s p = Some gp" "g_score s c' = Some gc'" "gc' + 1 \<le> gp"
        and v: "valid A p" "adjacent c' p" by blast
      show ?thesis
      proof (cases "c' = n")
        case True
        then have "gc + 1 < gc'" using lower o(2) by simp
        then show ?thesis using o v False True by (simp add: G)
      next
        case c'n: False
        then show ?thesis using o v False by (simp add: G)
      qed
    qed
  qed
  have J5: "\<forall>p. p \<in> dom (g_score s') \<longrightarrow> p \<noteq> start \<longrightarrow> p \<in> dom (came_from s')"
    using I5 by (auto simp: G C)
  have J7: "goal \<in> dom (g_score s') \<longrightarrow> goal \<in> set (open_set s')"
    using I7 by (auto simp: G O)
  have core': "inv_core A start goal s'"
    unfolding inv_core_def using J1 J2 J3 J4 J5 J7 by blast
  have rel_mono: "relaxed s' p q" if r: "relaxed s p q" and pn: "p \<noteq> n" for p q
  proof -
    from r obtain gp gq where o: "g_score s p = Some gp" "g_score s q = Some gq" "gq \<le> gp + 1"
      by (auto simp: relaxed_def)
    show ?thesis
    proof (cases "q = n")
      case True
      then have "gc + 1 < gq" using lower o(2) by simp
      then show ?thesis using o pn True by (auto simp: relaxed_def G)
    next
      case False
      then show ?thesis using o pn by (auto simp: relaxed_def G)
    qed
  qed
  have cl': "closed_except A s' {c}"
    unfolding closed_except_def
  proof (intro allI impI)
    fix p q
    assume a: "p \<in> dom (g_score s')" "p \<notin> set (open_set s')" "p \<notin> {c}" "valid A q" "adjacent p q"
    from a(2) have pn: "p \<noteq> n" and po: "p \<notin> set (open_set s)" by (auto simp: O)
    from a(1) pn have "p \<in> dom (g_score s)" by (auto simp: G)
    from closed_exceptD[OF cl this po a(3,4,5)] have "relaxed s p q" .
    then show "relaxed s' p q" using pn by (rule rel_mono)
  qed
  have cd: "c \<in> dom (g_score s')" using gc by (auto simp: G)
  have D': "\<forall>q\<in>insert n D. relaxed s' c q"
  proof
    fix q assume "q \<in> insert n D"
    then consider "q = n" | "q \<in> D" by auto
    then show "relaxed s' c q"
    proof cases
      case 1
      then show ?thesis using gc cn by (auto simp: relaxed_def G)
    next
      case 2
      then have "relaxed s c q" using D by simp
      then show ?thesis using cn by (rule rel_mono)
    qed
  qed
  show ?thesis unfolding mid_inv_def using core' cl' cd D' by simp
qed

lemma relax_update_less:
  assumes mid: "mid_inv A start goal c D s"
    and gc: "g_score s c = Some gc"
    and n: "valid A n"
    and upd: "g_score s n = None \<or> (\<exists>gn. g_score s n = Some gn \<and> gc + 1 < gn)"
    and G: "g_score s' = (g_score s)(n \<mapsto> gc + 1)"
  shows "scores_less A s' s"
proof -
  from mid have core: "inv_core A start goal s" by (simp add: mid_inv_def)
  then have "0 \<le> gc" using gc inv_core_score by blast
  then have t0: "0 \<le> gc + 1" by simp
  from upd show ?thesis
  proof
    assume "g_score s n = None"
    from unscored_new[OF n this G] show ?thesis by (simp add: scores_less_def)
  next
    assume "\<exists>gn. g_score s n = Some gn \<and> gc + 1 < gn"
    then obtain gn where "g_score s n = Some gn" "gc + 1 < gn" by blast
    from score_sum_lower[OF n this(1) t0 this(2) G] show ?thesis by (simp add: scores_less_def)
  qed
qed

lemma relax_mid:
  assumes mid: "mid_inv A start goal c D s" and n: "valid A n" "adjacent c n"
  shows "\<exists>s'. relax goal c n s = Inr s' \<and> mid_inv A start goal c (insert n D) s'
           \<and> (s' = s \<or> scores_less A s' s)"
proof -
  from mid obtain gc where gc: "g_score s c = Some gc" by (auto simp: mid_inv_def)
  show ?thesis
  proof (cases "g_score s n = None \<or> (\<exists>gn. g_score s n = Some gn \<and> gc + 1 < gn)")
    case True
    define s' where "s' = s\<lparr> came_from := (came_from s)(n \<mapsto> c),
                           g_score := (g_score s)(n \<mapsto> gc + 1),
                           f_score := (f_score s)(n \<mapsto> gc + 1 + heuristic n goal),
                           open_set := (if n \<in> set (open_set s) then open_set s
                                        else open_set s @ [n]) \<rparr>"
    have r: "relax goal c n s = Inr s'"
      using True gc by (auto simp: relax_def s'_def Let_def)
    have G: "g_score s' = (g_score s)(n \<mapsto> gc + 1)"
      and C: "came_from s' = (came_from s)(n \<mapsto> c)"
      and F: "f_score s' = (f_score s)(n \<mapsto> gc + 1 + heuristic n goal)"
      and O: "set (open_set s') = insert n (set (open_set s))"
      by (auto simp: s'_def)
    from relax_update_inv[OF mid gc n True G C F O] relax_update_less[OF mid gc n(1) True G] r
    show ?thesis by blast
  next
    case False
    then obtain gn where gn: "g_score s n = Some gn" "\<not> gc + 1 < gn" by auto
    then have r: "relax goal c n s = Inr s" using gc by (simp add: relax_def Let_def)
    have "relaxed s c n" using gc gn by (simp add: relaxed_def)
    then have "mid_inv A start goal c (insert n D) s" using mid by (simp add: mid_inv_def)
    with r show ?thesis by blast
  qed
qed

lemma relax_all_mid:
  assumes "mid_inv A start goal c D s" "\<forall>n\<in>set ns. valid A n \<and> adjacent c n"
  shows "\<exists>s'. relax_all goal c ns s = Inr s' \<and> mid_inv A start goal c (D \<union> set ns) s'
           \<and> (s' = s \<or> scores_less A s' s)"
  using assms
proof (induction ns arbitrary: D s)
  case Nil
  then show ?case by simp
next
  case (Cons n ns)
  from relax_mid[OF Cons.prems(1), of n] Cons.prems(2) obtain s1 where
    s1: "relax goal c n s = Inr s1" "mid_inv A start goal c (insert n D) s1"
        "s1 = s \<or> scores_less A s1 s" by auto
  from Cons.IH[OF s1(2)] Cons.prems(2) obtain s2 where
    s2: "relax_all goal c ns s1 = Inr s2" "mid_inv A start goal c (insert n D \<union> set ns) s2"
        "s2 = s1 \<or> scores_less A s2 s1" by auto
  have "relax_all goal c (n # ns) s = Inr s2" using s1(1) s2(1) by simp
  moreover have "mid_inv A start goal c (D \<union> set (n # ns)) s2" using s2(2) by simp
  moreover have "s2 = s \<or> scores_less A s2 s"
    using s1(3) s2(3) scores_less_trans by blast
  ultimately show ?case by blast
qed

section \<open>Path reconstruction\<close>

lemma walk_back_route:
  assumes core: "inv_core A start goal s"
  shows "g_score s p = Some gp \<Longrightarrow>
     \<exists>ch. walk_back (came_from s) p acc = Some (acc @ ch)
        \<and> route A start p (rev (ch @ [start])) \<and> int (length ch) \<le> gp"
proof (induction "nat gp" arbitrary: p gp acc rule: less_induct)
  case less
  note g = less.prems
  have gp0: "0 \<le> gp" and vp: "valid A p" using inv_core_score[OF core g] by simp_all
  show ?case
  proof (cases "came_from s p")
    case None
    have "p = start"
    proof (rule ccontr)
      assume "p \<noteq> start"
      with inv_core_dom[OF core, of p] g have "p \<in> dom (came_from s)" by auto
      with None show False by auto
    qed
    moreover have "walk_back (came_from s) p acc = Some acc"
      using None by (subst walk_back.simps) simp
    ultimately show ?thesis using vp gp0 by (intro exI[of _ "[]"]) (simp add: route_single)
  next
    case (Some c)
    from inv_core_came[OF core Some] g obtain gc where
      gc: "g_score s c = Some gc" "gc + 1 \<le> gp" and adj: "adjacent c p" by auto
    have gc0: "0 \<le> gc" using inv_core_score[OF core gc(1)] by simp
    then have "nat gc < nat gp" using gc(2) by simp
    from less.hyps[OF this gc(1), of "acc @ [p]"] obtain ch where
      ch: "walk_back (came_from s) c (acc @ [p]) = Some ((acc @ [p]) @ ch)"
          "route A start c (rev (ch @ [start]))" "int (length ch) \<le> gc" by blast
    have "walk_back (came_from s) p acc = walk_back (came_from s) c (acc @ [p])"
      using Some by (subst walk_back.simps) simp
    then have "walk_back (came_from s) p acc = Some (acc @ (p # ch))" using ch(1) by simp
    moreover have "route A start p (rev ((p # ch) @ [start]))"
      using route_snoc[OF ch(2) adj vp] by simp
    moreover have "int (length (p # ch)) \<le> gp" using ch(3) gc(2) by simp
    ultimately show ?thesis by blast
  qed
qed

section \<open>The frontier separates the start from the goal\<close>

lemma relaxedD:
  "relaxed s p q \<Longrightarrow> g_score s p = Some gp \<Longrightarrow> \<exists>gq. g_score s q = Some gq \<and> gq \<le> gp + 1"
  by (auto simp: relaxed_def)

lemma frontier_on_route:
  assumes inv: "search_inv A start goal s"
  shows "ps \<noteq> [] \<Longrightarrow> four_connected ps \<Longrightarrow> list_all (valid A) ps \<Longrightarrow> g_score s (hd ps) = Some g0 \<Longrightarrow>
     last ps \<in> set (open_set s) \<Longrightarrow>
     \<exists>q gq. q \<in> set (open_set s) \<and> g_score s q = Some gq
        \<and> gq + heuristic q (last ps) \<le> g0 + int (length ps) - 1"
proof (induction ps arbitrary: g0 rule: four_connected.induct)
  case 1
  then show ?case by simp
next
  case (2 p)
  then have "p \<in> set (open_set s)" "g_score s p = Some g0" by simp_all
  then show ?case by (intro exI[of _ p] exI[of _ g0]) (simp add: heuristic_self)
next
  case (3 p p' ps)
  from inv have cl: "closed_except A s {}" by (simp add: search_inv_def)
  show ?case
  proof (cases "p \<in> set (open_set s)")
    case True
    have "heuristic p (last (p # p' # ps)) \<le> int (length (p # p' # ps)) - 1"
      using connected_heuristic[of "p # p' # ps"] "3.prems"(2) by simp
    then show ?thesis using True "3.prems"(4) by (intro exI[of _ p] exI[of _ g0]) simp
  next
    case False
    have gp: "g_score s p = Some g0" using "3.prems"(4) by simp
    have "relaxed s p p'"
      using closed_exceptD[OF cl _ False, of p'] gp "3.prems"(2,3) by auto
    from relaxedD[OF this gp] obtain g' where g': "g_score s p' = Some g'" "g' \<le> g0 + 1"
      by blast
    have "\<exists>q gq. q \<in> set (open_set s) \<and> g_score s q = Some gq
        \<and> gq + heuristic q (last (p' # ps)) \<le> g' + int (length (p' # ps)) - 1"
      using "3.IH"[of g'] "3.prems" g'(1) by simp
    then obtain q gq where "q \<in> set (open_set s)" "g_score s q = Some gq"
      "gq + heuristic q (last (p' # ps)) \<le> g' + int (length (p' # ps)) - 1" by blast
    then show ?thesis using g'(2) by (intro exI[of _ q] exI[of _ gq]) simp
  qed
qed

lemma reach_closed:
  assumes inv: "search_inv A start goal s" and empty: "open_set s = []"
  shows "ps \<noteq> [] \<Longrightarrow> four_connected ps \<Longrightarrow> list_all (valid A) ps \<Longrightarrow> hd ps \<in> dom (g_score s) \<Longrightarrow>
     last ps \<in> dom (g_score s)"
proof (induction ps rule: four_connected.induct)
  case 1
  then show ?case by simp
next
  case (2 p)
  then show ?case by simp
next
  case (3 p p' ps)
  from inv have cl: "closed_except A s {}" by (simp add: search_inv_def)
  from "3.prems"(4) obtain g0 where gp: "g_score s p = Some g0" by auto
  have "relaxed s p p'"
    using closed_exceptD[OF cl _ _ _ _ _, of p p'] gp "3.prems"(2,3) empty by auto
  from relaxedD[OF this gp] have "p' \<in> dom (g_score s)" by auto
  then show ?case using "3.IH" "3.prems" by simp
qed

lemma no_route_when_exhausted:
  assumes inv: "search_inv A start goal s" and empty: "open_set s = []"
  shows "\<not> route A start goal ps"
proof
  assume r: "route A start goal ps"
  from inv have core: "inv_core A start goal s" by (simp add: search_inv_def)
  have "hd ps \<in> dom (g_score s)" using r inv_core_start[OF core] by (auto simp: route_def)
  from reach_closed[OF inv empty _ _ _ this] r have "goal \<in> dom (g_score s)"
    by (auto simp: route_def)
  from inv_core_goal[OF core this] empty show False by simp
qed

section \<open>One expansion\<close>

lemma relaxed_cong: "g_score s' = g_score s \<Longrightarrow> relaxed s' p q = relaxed s p q"
  by (simp add: relaxed_def)

lemma measure_cong:
  "g_score s' = g_score s \<Longrightarrow> unscored A s' = unscored A s \<and> score_sum A s' = score_sum A s"
  by (simp add: unscored_def score_sum_def)

lemma expand_step:
  assumes inv: "search_inv A start goal s"
    and cur: "current \<in> set (open_set s)" and ne: "current \<noteq> goal"
  shows "\<exists>s'. relax_all goal current (get_neighbors A (fst current) (snd current))
                 (s\<lparr> open_set := removeAll current (open_set s) \<rparr>) = Inr s'
           \<and> search_inv A start goal s' \<and> (s', s) \<in> search_measure A"
proof -
  define s0 where "s0 = s\<lparr> open_set := removeAll current (open_set s) \<rparr>"
  have fields: "g_score s0 = g_score s" "came_from s0 = came_from s" "f_score s0 = f_score s"
    and O: "set (open_set s0) = set (open_set s) - {current}"
    by (simp_all add: s0_def)
  from inv have core: "inv_core A start goal s" and cl: "closed_except A s {}"
    by (simp_all add: search_inv_def)
  note I1 = inv_core_open[OF core] and I2 = inv_core_start[OF core]
    and I3 = inv_core_score[OF core] and I4 = inv_core_came[OF core]
    and I5 = inv_core_dom[OF core] and I7 = inv_core_goal[OF core]
  have core0: "inv_core A start goal s0"
    unfolding inv_core_def fields O
    using I1 I2 I3 I4 I5 I7 ne by (intro conjI) blast+
  have cl0: "closed_except A s0 {current}"
    unfolding closed_except_def
  proof (intro allI impI)
    fix p q
    assume a: "p \<in> dom (g_score s0)" "p \<notin> set (open_set s0)" "p \<notin> {current}"
      "valid A q" "adjacent p q"
    then have "p \<in> dom (g_score s)" "p \<notin> set (open_set s)" by (auto simp: fields O)
    from closed_exceptD[OF cl this _ a(4,5)] show "relaxed s0 p q"
      by (simp add: relaxed_cong[OF fields(1)])
  qed
  have "current \<in> dom (g_score s0)" using I1 cur by (auto simp: fields)
  then have mid0: "mid_inv A start goal current {} s0"
    using core0 cl0 by (simp add: mid_inv_def)
  let ?ns = "get_neighbors A (fst current) (snd current)"
  have nb: "\<forall>n\<in>set ?ns. valid A n \<and> adjacent current n"
    by (simp add: neighbors_iff)
  from relax_all_mid[OF mid0 nb] obtain s' where
    s': "relax_all goal current ?ns s0 = Inr s'" "mid_inv A start goal current ({} \<union> set ?ns) s'"
        "s' = s0 \<or> scores_less A s' s0" by blast
  from s'(2) have core': "inv_core A start goal s'" and cl': "closed_except A s' {current}"
    and nbs_done: "\<forall>q\<in>set ?ns. relaxed s' current q"
    by (simp_all add: mid_inv_def)
  have "closed_except A s' {}"
    unfolding closed_except_def
  proof (intro allI impI)
    fix p q
    assume a: "p \<in> dom (g_score s')" "p \<notin> set (open_set s')" "p \<notin> {}" "valid A q" "adjacent p q"
    show "relaxed s' p q"
    proof (cases "p = current")
      case True
      then have "q \<in> set ?ns" using a(4,5) by (simp add: neighbors_iff)
      then show ?thesis using nbs_done True by simp
    next
      case False
      then have "p \<notin> {current}" by simp
      from closed_exceptD[OF cl' a(1,2) this a(4,5)] show ?thesis .
    qed
  qed
  then have inv': "search_inv A start goal s'" using core' by (simp add: search_inv_def)
  have len: "length (open_set s0) < length (open_set s)"
    using cur by (simp add: s0_def length_removeAll_less)
  have m0: "unscored A s0 = unscored A s" "score_sum A s0 = score_sum A s"
    using measure_cong[OF fields(1), of A] by simp_all
  have "(s', s) \<in> search_measure A"
    using s'(3)
  proof
    assume "s' = s0"
    then show ?thesis using len m0 by (simp add: search_measure_iff)
  next
    assume "scores_less A s' s0"
    then have "scores_less A s' s" using m0 by (simp add: scores_less_def)
    then show ?thesis by (simp add: search_measure_iff)
  qed
  with s'(1) inv' show ?thesis unfolding s0_def by blast
qed

section \<open>The search loop returns, and what it returns\<close>

lemma loop_post_mono: "loop_post A start goal (Suc k) r \<Longrightarrow> loop_post A start goal k r"
  by (cases r) auto

lemma pick_current:
  assumes "sort_key rank xs = c # cs"
  shows "py_min_from key c cs \<in> set xs"
    and "\<forall>x\<in>set xs. \<not> key_less (key x) (key (py_min_from key c cs))"
proof -
  have s: "set xs = insert c (set cs)"
    using assms set_sort[of rank xs] by simp
  show "py_min_from key c cs \<in> set xs"
    using py_min_from_mem[of key c cs] s by simp
  show "\<forall>x\<in>set xs. \<not> key_less (key x) (key (py_min_from key c cs))"
    using py_min_from_least[of _ c cs key] s by simp
qed

lemma goal_reached:
  assumes inv: "search_inv A start goal s"
    and goal_open: "goal \<in> set (open_set s)"
    and least: "\<forall>x\<in>set (open_set s). \<not> key_less (f_score s x) (f_score s goal)"
  shows "\<exists>path. reconstruct (came_from s) start goal = Some path
           \<and> route A start goal path
           \<and> (\<forall>ps. route A start goal ps \<longrightarrow> length path \<le> length ps)"
proof -
  from inv have core: "inv_core A start goal s" by (simp add: search_inv_def)
  from inv_core_open[OF core] goal_open obtain gg where gg: "g_score s goal = Some gg" by auto
  have fg: "f_score s goal = Some gg"
    using inv_core_score[OF core gg] by (simp add: heuristic_self)
  from walk_back_route[OF core gg, of "[]"] obtain ch where
    ch: "walk_back (came_from s) goal [] = Some ch" "route A start goal (rev (ch @ [start]))"
        "int (length ch) \<le> gg" by auto
  let ?path = "rev (ch @ [start])"
  have rec: "reconstruct (came_from s) start goal = Some ?path"
    using ch(1) by (simp add: reconstruct_def)
  have opt: "length ?path \<le> length ps" if r: "route A start goal ps" for ps
  proof -
    from r have ps: "ps \<noteq> []" "four_connected ps" "list_all (valid A) ps" "hd ps = start" "last ps = goal"
      by (simp_all add: route_def)
    have "g_score s (hd ps) = Some 0" using inv_core_start[OF core] ps(4) by simp
    from frontier_on_route[OF inv ps(1,2,3) this] goal_open ps(5) obtain q gq where
      q: "q \<in> set (open_set s)" "g_score s q = Some gq"
         "gq + heuristic q goal \<le> 0 + int (length ps) - 1" by auto
    have fq: "f_score s q = Some (gq + heuristic q goal)"
      using inv_core_score[OF core q(2)] by simp
    have "\<not> key_less (f_score s q) (f_score s goal)" using least q(1) by simp
    then have "gg \<le> gq + heuristic q goal" by (simp add: fq fg)
    then show ?thesis using q(3) ch(3) by simp
  qed
  from rec ch(2) opt show ?thesis by blast
qed

lemma search_loop_correct:
  assumes "search_inv A start goal s"
  shows "\<exists>r. search_loop A order start goal k s = Some (Inr r) \<and> loop_post A start goal k r"
  using assms
proof (induction s arbitrary: k rule: wf_induct_rule[OF wf_search_measure[of A]])
  case (1 s)
  note inv = "1.prems"
  show ?case
  proof (cases "sort_key (order k) (open_set s)")
    case Nil
    then have "length (open_set s) = 0" using length_sort[of "order k" "open_set s"] by simp
    then have empty: "open_set s = []" by simp
    have "search_loop A order start goal k s = Some (Inr (Exhausted k))"
      using Nil by (subst search_loop.simps) simp
    moreover have "loop_post A start goal k (Exhausted k)"
      using no_route_when_exhausted[OF inv empty] by simp
    ultimately show ?thesis by blast
  next
    case (Cons c cs)
    define current where "current = py_min_from (f_score s) c cs"
    have cur: "current \<in> set (open_set s)"
      and least: "\<forall>x\<in>set (open_set s). \<not> key_less (f_score s x) (f_score s current)"
      unfolding current_def using pick_current[OF Cons] by blast+
    show ?thesis
    proof (cases "current = goal")
      case True
      from goal_reached[OF inv] cur least True obtain path where
        p: "reconstruct (came_from s) start goal = Some path" "route A start goal path"
           "\<forall>ps. route A start goal ps \<longrightarrow> length path \<le> length ps" by auto
      have "search_loop A order start goal k s = Some (Inr (Found path k))"
        using Cons True p(1) by (subst search_loop.simps) (simp add: current_def[symmetric])
      moreover have "loop_post A start goal k (Found path k)" using p(2,3) by simp
      ultimately show ?thesis by blast
    next
      case False
      from expand_step[OF inv cur False] obtain s' where
        s': "relax_all goal current (get_neighbors A (fst current) (snd current))
               (s\<lparr> open_set := removeAll current (open_set s) \<rparr>) = Inr s'"
            "search_inv A start goal s'" "(s', s) \<in> search_measure A" by blast
      from "1.IH"[OF s'(3) s'(2), of "Suc k"] obtain r where
        r: "search_loop A order start goal (Suc k) s' = Some (Inr r)"
           "loop_post A start goal (Suc k) r" by blast
      have "search_loop A order start goal k s = search_loop A order start goal (Suc k) s'"
        using Cons False s'(1) by (subst search_loop.simps) (simp add: current_def[symmetric])
      with r loop_post_mono show ?thesis by metis
    qed
  qed
qed

lemma initial_inv:
  assumes "valid A start"
  shows "search_inv A start goal (initial_search start goal)"
proof -
  have "inv_core A start goal (initial_search start goal)"
    unfolding inv_core_def initial_search_def using assms by (auto split: if_splits)
  moreover have "closed_except A (initial_search start goal) {}"
    unfolding closed_except_def initial_search_def by (auto split: if_splits)
  ultimately show ?thesis by (simp add: search_inv_def)
qed

lemma find_path_total:
  "\<exists>r. find_path A order start goal = Some (Inr r)
     \<and> (if valid A start \<and> valid A goal then loop_post A start goal 0 r else r = Rejected)"
proof (cases "valid A start \<and> valid A goal")
  case True
  then have "search_inv A start goal (initial_search start goal)"
    by (simp add: initial_inv)
  from search_loop_correct[OF this, where order = order and k = 0] True
  show ?thesis by (simp add: find_path_def valid_def)
next
  case False
  then show ?thesis by (auto simp: find_path_def valid_def)
qed

section \<open>Obstacle-free grids\<close>




section \<open>The claims about the grid planner\<close>

text \<open>
  C6: whenever \<open>find_path\<close> returns a path, every cell of it satisfies
  \<open>is_valid_position\<close>, consecutive cells differ by one unit in exactly one axis, the
  first cell is \<open>start\<close> and the last is \<open>goal\<close>; with \<open>start = goal\<close> the path is
  \<open>[start]\<close>.  This holds for every order in which the frontier is scanned.
\<close>

theorem C6_returned_path_valid:
  assumes "find_path A order start goal = Some (Inr r)" and "returned r = Some path"
  shows "list_all (\<lambda>p. is_valid_position A (fst p) (snd p)) path \<and> four_connected path
     \<and> path \<noteq> [] \<and> hd path = start \<and> last path = goal
     \<and> (start = goal \<longrightarrow> path = [start])"
proof -
  from find_path_total[of A order start goal] assms(1) have
    post: "if valid A start \<and> valid A goal then loop_post A start goal 0 r else r = Rejected"
    by auto
  from assms(2) obtain k where r: "r = Found path k" by (cases r) auto
  with post have v: "valid A start" "valid A goal" and lp: "loop_post A start goal 0 (Found path k)"
    by (auto split: if_splits)
  from lp have rt: "route A start goal path"
    and opt: "\<And>ps. route A start goal ps \<Longrightarrow> length path \<le> length ps" by auto
  have single: "path = [start]" if "start = goal"
  proof -
    have "route A start goal [start]" using that v by (simp add: route_single)
    from opt[OF this] have "length path \<le> 1" by simp
    moreover from rt have "path \<noteq> []" "hd path = start" by (simp_all add: route_def)
    ultimately show ?thesis by (cases path) auto
  qed
  have "list_all (valid A) path" using rt by (simp add: route_def)
  then have "list_all (\<lambda>p. is_valid_position A (fst p) (snd p)) path"
    by (simp add: valid_def[abs_def])
  with rt single show ?thesis by (simp add: route_def)
qed

text \<open>
  C4: \<open>find_path\<close> always returns, and it returns \<open>None\<close> exactly when \<open>start\<close> or \<open>goal\<close>
  fails \<open>is_valid_position\<close> or no route of valid, pairwise adjacent cells joins them.  With
  an invalid endpoint it returns before the loop, with no expansion; with valid
  endpoints and no route it returns where the loop test \<open>while open_set\<close> fails; otherwise
  it returns a path.
\<close>

theorem C4_not_found_iff:
  "\<exists>r. find_path A order start goal = Some (Inr r) \<and>
     (returned r = None \<longleftrightarrow>
        (\<not> is_valid_position A (fst start) (snd start) \<or>
         \<not> is_valid_position A (fst goal) (snd goal) \<or>
         (\<forall>ps. \<not> route A start goal ps))) \<and>
     (\<not> is_valid_position A (fst start) (snd start) \<or>
      \<not> is_valid_position A (fst goal) (snd goal)
        \<longrightarrow> r = Rejected \<and> expansions r = 0) \<and>
     (is_valid_position A (fst start) (snd start) \<and>
      is_valid_position A (fst goal) (snd goal) \<and> (\<forall>ps. \<not> route A start goal ps)
        \<longrightarrow> (\<exists>k. r = Exhausted k)) \<and>
     (is_valid_position A (fst start) (snd start) \<and>
      is_valid_position A (fst goal) (snd goal) \<and> (\<exists>ps. route A start goal ps)
        \<longrightarrow> (\<exists>path k. r = Found path k))"
proof -
  from find_path_total[of A order start goal] obtain r where
    fp: "find_path A order start goal = Some (Inr r)"
    and post: "if valid A start \<and> valid A goal then loop_post A start goal 0 r else r = Rejected"
    by blast
  show ?thesis
  proof (cases "valid A start \<and> valid A goal")
    case False
    with post have "r = Rejected" by simp
    with False fp show ?thesis by (auto simp: valid_def)
  next
    case True
    with post have lp: "loop_post A start goal 0 r" by simp
    show ?thesis
    proof (cases r)
      case Rejected
      with lp show ?thesis by simp
    next
      case (Found path k)
      with lp have "route A start goal path" by simp
      with Found True fp show ?thesis by (auto simp: valid_def)
    next
      case (Exhausted k)
      with lp have "\<forall>ps. \<not> route A start goal ps" by simp
      with Exhausted True fp show ?thesis by (auto simp: valid_def)
    qed
  qed
qed


section \<open>The claims at concrete grids\<close>

lemma detour_run:
  "find_path detour_grid first_come (0, 0) (2, 0)
     = Some (Inr (Found [(0, 0), (0, 1), (1, 1), (2, 1), (2, 0)] 4))"
  by code_simp

lemma same_cell_run:
  "find_path detour_grid first_come (0, 0) (0, 0) = Some (Inr (Found [(0, 0)] 0))"
  by code_simp

lemma walled_run:
  "find_path walled_grid first_come (0, 0) (2, 0) = Some (Inr (Exhausted 1))"
  by code_simp

lemma occupied_goal_run:
  "find_path walled_grid first_come (0, 0) (1, 0) = Some (Inr Rejected)"
  by code_simp


lemma walled_cells:
  "is_valid_position walled_grid 0 0" "is_valid_position walled_grid 2 0"
  "\<not> is_valid_position walled_grid 1 0"
  by code_simp+

lemma detour_cells:
  "is_valid_position detour_grid 0 0" "is_valid_position detour_grid 2 0"
  by code_simp+


text \<open>C6 on the detour grid, from \<open>(0, 0)\<close> to \<open>(2, 0)\<close> and from \<open>(0, 0)\<close> to itself.\<close>

theorem C6_witness:
  "find_path detour_grid first_come (0, 0) (2, 0)
     = Some (Inr (Found [(0, 0), (0, 1), (1, 1), (2, 1), (2, 0)] 4))
   \<and> list_all (\<lambda>p. is_valid_position detour_grid (fst p) (snd p))
        [(0, 0), (0, 1), (1, 1), (2, 1), (2, 0)]
   \<and> four_connected [(0, 0), (0, 1), (1, 1), (2, 1), (2, 0)]
   \<and> find_path detour_grid first_come (0, 0) (0, 0) = Some (Inr (Found [(0, 0)] 0))"
  using C6_returned_path_valid[OF detour_run, of "[(0, 0), (0, 1), (1, 1), (2, 1), (2, 0)]"]
    C6_returned_path_valid[OF same_cell_run, of "[(0, 0)]"] detour_run same_cell_run
  by simp

text \<open>
  C4 on the walled grid (occupied goal; goal behind the wall) and on the detour grid.
\<close>

theorem C4_witness:
  "find_path walled_grid first_come (0, 0) (1, 0) = Some (Inr Rejected)
   \<and> find_path walled_grid first_come (0, 0) (2, 0) = Some (Inr (Exhausted 1))
   \<and> (\<forall>ps. \<not> route walled_grid (0, 0) (2, 0) ps)
   \<and> (\<exists>ps. route detour_grid (0, 0) (2, 0) ps)"
proof -
  from C4_not_found_iff[of walled_grid first_come "(0, 0)" "(2, 0)"] walled_run walled_cells
  have a: "\<forall>ps. \<not> route walled_grid (0, 0) (2, 0) ps" by auto
  from C4_not_found_iff[of detour_grid first_come "(0, 0)" "(2, 0)"] detour_run detour_cells
  have b: "\<exists>ps. route detour_grid (0, 0) (2, 0) ps" by auto
  from C4_not_found_iff[of walled_grid first_come "(0, 0)" "(1, 0)"] walled_cells
  have c: "find_path walled_grid first_come (0, 0) (1, 0) = Some (Inr Rejected)" by auto
  from a b c walled_run show ?thesis by simp
qed






section \<open>The control loop ends\<close>

lemma min_dist_of_shape: "min_dist_of P trajectory = PInf \<or> (\<exists>d. min_dist_of P trajectory = Fin d)"
proof -
  have inner: "m = PInf \<or> (\<exists>d. m = Fin d) \<Longrightarrow>
      foldl (closer p) m obs = PInf \<or> (\<exists>d. foldl (closer p) m obs = Fin d)" for p m obs
    by (induction obs arbitrary: m) (auto simp: closer_def)
  have outer: "m = PInf \<or> (\<exists>d. m = Fin d) \<Longrightarrow>
      foldl (\<lambda>m p. foldl (closer p) m (obstacles P)) m tr = PInf
      \<or> (\<exists>d. foldl (\<lambda>m p. foldl (closer p) m (obstacles P)) m tr = Fin d)" for m tr
  proof (induction tr arbitrary: m)
    case Nil
    then show ?case by simp
  next
    case (Cons p tr)
    from inner[OF Cons.prems, of p "obstacles P"] Cons.IH show ?case by simp
  qed
  show ?thesis unfolding min_dist_of_def by (rule outer) simp
qed

lemma obstacle_cost_shape:
  "calc_obstacle_cost P trajectory = Inr c \<Longrightarrow> c = PInf \<or> (\<exists>d. c = Fin d)"
  using min_dist_of_shape[of P trajectory]
  by (auto simp: calc_obstacle_cost_def Let_def split: if_splits)








section \<open>Where the selected control lies\<close>





section \<open>Runs of a planner without obstacles\<close>







section \<open>The claims about the control loop\<close>




section \<open>The first control cycle\<close>





end
